theory Spec2Isabelle
  imports Complex_Main
begin

section \<open>SerialWeight.ino: an Ohaus Navigator scale on an Arduino Mega 2560\<close>

text \<open>
  The sketch reads the scale's continuous print-out from serial port 1, one byte at a
  time, assembles a line in the global array \<open>receivedStr\<close>, and on every completed line
  shows the text on the LCD, draws a capacity bar and sets three LEDs.

  The target is the ATmega2560 (stated in the sketch's header): \<open>int\<close> and \<open>size_t\<close> have
  16 bits, \<open>long\<close> has 32. A \<open>float\<close> weight is modelled by the real number it stands for,
  with exact arithmetic; comparisons of floats are exact, and the limits 4990, 5010 and
  6200 are floats.
\<close>

subsection \<open>Constants of the sketch\<close>

definition maxChars :: int where
  "maxChars = 42"

definition loLimit :: real where
  "loLimit = 4990"

definition hiLimit :: real where
  "hiLimit = 5010"

definition pinHiLed :: int where
  "pinHiLed = 50"

definition pinOkLed :: int where
  "pinOkLed = 48"

definition pinLoLed :: int where
  "pinLoLed = 46"

definition maxWeight :: int where
  "maxWeight = 6200"

subsection \<open>Digital outputs and \<open>checkWeigh\<close>\<close>

datatype level = LOW | HIGH

text \<open>The output latch of every pin; \<open>digitalWrite\<close> overwrites one of them.\<close>

type_synonym pins = "int \<Rightarrow> level"

definition digitalWrite :: "int \<Rightarrow> level \<Rightarrow> pins \<Rightarrow> pins" where
  "digitalWrite pin v io = io(pin := v)"

text \<open>
  \<open>checkWeigh\<close>, lines 64 to 83: three branches, each with its three writes in the order
  of the source (\<open>pinHiLed\<close>, \<open>pinOkLed\<close>, \<open>pinLoLed\<close>).
\<close>

definition checkWeigh :: "real \<Rightarrow> pins \<Rightarrow> pins" where
  "checkWeigh weight io =
     (if weight < loLimit then
        digitalWrite pinLoLed HIGH (digitalWrite pinOkLed LOW (digitalWrite pinHiLed LOW io))
      else if weight > hiLimit then
        digitalWrite pinLoLed LOW (digitalWrite pinOkLed LOW (digitalWrite pinHiLed HIGH io))
      else
        digitalWrite pinLoLed LOW (digitalWrite pinOkLed HIGH (digitalWrite pinHiLed LOW io)))"

text \<open>
  The three states of the check, read off the three LEDs: exactly the named LED is lit.
\<close>

definition shows_Low :: "pins \<Rightarrow> bool" where
  "shows_Low io = (io pinLoLed = HIGH \<and> io pinOkLed = LOW \<and> io pinHiLed = LOW)"

definition shows_Ok :: "pins \<Rightarrow> bool" where
  "shows_Ok io = (io pinLoLed = LOW \<and> io pinOkLed = HIGH \<and> io pinHiLed = LOW)"

definition shows_High :: "pins \<Rightarrow> bool" where
  "shows_High io = (io pinLoLed = LOW \<and> io pinOkLed = LOW \<and> io pinHiLed = HIGH)"

subsection \<open>The LCD, \<open>displayString\<close> and \<open>updateBar\<close>\<close>

text \<open>
  The display is driven through the LiquidCrystal library, which is not part of the
  sketch. The model records the commands the sketch sends, in order.
\<close>

datatype lcd_cmd = SetCursor nat nat | Write char

text \<open>
  Conversions between the integer types of the target, with the wrap-around written out.
  \<open>int_of_size_t\<close> and \<open>int_of_long\<close> keep the low 16 bits and read them as two's
  complement (what avr-gcc does for a value that does not fit an \<open>int\<close>);
  \<open>size_t_minus\<close> is the unsigned 16-bit subtraction of \<open>size_t\<close>.
\<close>

definition int16 :: "int \<Rightarrow> int" where
  "int16 n = (n + 2 ^ 15) mod 2 ^ 16 - 2 ^ 15"

definition int_of_size_t :: "nat \<Rightarrow> int" where
  "int_of_size_t n = int16 (int n)"

definition int_of_long :: "int \<Rightarrow> int" where
  "int_of_long n = int16 n"

definition size_t_minus :: "nat \<Rightarrow> nat \<Rightarrow> int" where
  "size_t_minus a b = (int a - int b) mod 2 ^ 16"

text \<open>
  \<open>displayString\<close>, lines 52 to 61. The argument is the text of the C string, that is the
  characters before its terminator, so \<open>strlen(str)\<close> is its length. The loop runs
  \<open>i\<close> from 0 to 15; \<open>lcd.write(" ")\<close> sends the one character of the string \<open>" "\<close>.
\<close>

definition displayString :: "string \<Rightarrow> lcd_cmd list" where
  "displayString str =
     (let num = int_of_size_t (length str)
      in SetCursor 0 0 #
         map (\<lambda>i. if int i < num then Write (str ! i) else Write (CHR '' '')) [0..<16])"

text \<open>
  The cast \<open>(long) x\<close> of a float drops the fraction (rounds towards zero). C defines it
  only for values inside the range of \<open>long\<close>; the model uses the mathematical value
  everywhere, and the properties of the bar below concern values inside that range.
\<close>

definition long_of_float :: "real \<Rightarrow> int" where
  "long_of_float x = (if 0 \<le> x then \<lfloor>x\<rfloor> else \<lceil>x\<rceil>)"

text \<open>
  Modelled from the spec: \<open>round\<close> is not defined in the sketch; it is the macro of the
  Arduino core, \<^verbatim>\<open>((x)>=0?(long)((x)+0.5):(long)((x)-0.5))\<close>. The spec says
  \<open>segments = round(weight / maxCapacity * barWidth)\<close>: the nearest integer, a half
  rounded away from zero.
\<close>

definition round_macro :: "real \<Rightarrow> int" where
  "round_macro x = (if x \<ge> 0 then long_of_float (x + 1 / 2) else long_of_float (x - 1 / 2))"

text \<open>
  \<open>updateBar\<close>, lines 86 to 95. \<open>num\<close> is an \<open>int\<close>, so the \<open>long\<close> that \<open>round\<close> yields
  is narrowed to 16 bits.
\<close>

definition updateBar :: "real \<Rightarrow> lcd_cmd list" where
  "updateBar weight =
     (let num = int_of_long (round_macro (weight / real_of_int maxWeight * 16))
      in SetCursor 0 1 #
         map (\<lambda>i. if int i < num then Write (CHR ''='') else Write (CHR '' '')) [0..<16])"

text \<open>The characters a command sequence writes, and how many of them are \<open>=\<close>.\<close>

fun written :: "lcd_cmd list \<Rightarrow> string" where
  "written [] = []"
| "written (SetCursor c r # cs) = written cs"
| "written (Write ch # cs) = ch # written cs"

definition filled :: "lcd_cmd list \<Rightarrow> nat" where
  "filled cs = length (filter (\<lambda>ch. ch = CHR ''='') (written cs))"

subsection \<open>The receive buffer\<close>

text \<open>
  \<open>receivedStr\<close> is an array of \<open>maxChars\<close> characters. A read or a write at an index
  outside the array is undefined behaviour in C; the model stops there with an error that
  names the index.
\<close>

datatype error = OutOfBoundsRead int | OutOfBoundsWrite int

definition and_then :: "error + 'a \<Rightarrow> ('a \<Rightarrow> error + 'b) \<Rightarrow> error + 'b" where
  "and_then m f = (case m of Inl e \<Rightarrow> Inl e | Inr x \<Rightarrow> f x)"

definition NUL :: char where
  "NUL = CHR 0x00"

definition LF :: char where
  "LF = CHR 0x0A"

definition CR :: char where
  "CR = CHR 0x0D"

definition read_at :: "char list \<Rightarrow> int \<Rightarrow> error + char" where
  "read_at buf i =
     (if 0 \<le> i \<and> i < int (length buf) then Inr (buf ! nat i) else Inl (OutOfBoundsRead i))"

definition write_at :: "char list \<Rightarrow> int \<Rightarrow> char \<Rightarrow> error + char list" where
  "write_at buf i c =
     (if 0 \<le> i \<and> i < int (length buf) then Inr (buf[nat i := c])
      else Inl (OutOfBoundsWrite i))"

text \<open>
  The C string that starts at the array's first cell: the characters before the first
  NUL. With no NUL in the array, \<open>strlen\<close>, \<open>atof\<close> and \<open>displayString\<close> would read past
  its end.
\<close>

definition c_string :: "char list \<Rightarrow> error + string" where
  "c_string buf =
     (if NUL \<in> set buf then Inr (takeWhile (\<lambda>c. c \<noteq> NUL) buf)
      else Inl (OutOfBoundsRead (int (length buf))))"

definition strlen :: "char list \<Rightarrow> error + nat" where
  "strlen buf = and_then (c_string buf) (\<lambda>str. Inr (length str))"

subsection \<open>The sketch's state and \<open>loop\<close>\<close>

record sketch =
  receivedStr :: "char list"
  numCharsReceived :: int
  lcd :: "lcd_cmd list"
  pins :: pins

text \<open>The state after \<open>setup\<close>: the globals as initialised, nothing shown yet.\<close>

definition initial :: sketch where
  "initial = \<lparr>receivedStr = replicate 42 NUL, numCharsReceived = 0, lcd = [],
              pins = (\<lambda>p. LOW)\<rparr>"

text \<open>
  One pass of the \<open>while\<close> loop of \<open>loop\<close>, lines 112 to 128, for the byte \<open>c\<close> that
  \<open>Serial1.read()\<close> returned. \<open>atof\<close> belongs to the C library and is a parameter here.
  The result holds the line handed to \<open>displayString\<close> and \<open>atof\<close>, when this pass
  completed one. \<open>numCharsReceived\<close> is a 16-bit \<open>int\<close>; a pass that succeeds leaves it
  between 0 and 42, so its arithmetic never wraps.
\<close>

definition loop_step ::
    "(string \<Rightarrow> real) \<Rightarrow> char \<Rightarrow> sketch \<Rightarrow> error + (string option \<times> sketch)" where
  "loop_step parse c s =
     (if c = LF \<or> numCharsReceived s = maxChars then
        and_then (strlen (receivedStr s)) (\<lambda>n.
        and_then (read_at (receivedStr s) (size_t_minus n 1)) (\<lambda>last_char.
        and_then
          (if last_char = CR then
             and_then (strlen (receivedStr s)) (\<lambda>m.
               write_at (receivedStr s) (size_t_minus m 1) NUL)
           else Inr (receivedStr s)) (\<lambda>buf.
        and_then (c_string buf) (\<lambda>line.
        let weight = parse line;
            shown = lcd s @ displayString line @ updateBar weight;
            io = checkWeigh weight (pins s)
        in and_then (write_at buf 0 NUL) (\<lambda>buf'.
             Inr (Some line,
                  s\<lparr>receivedStr := buf', numCharsReceived := 0, lcd := shown,
                    pins := io\<rparr>))))))
      else
        and_then (write_at (receivedStr s) (numCharsReceived s) c) (\<lambda>buf.
        and_then (write_at buf (numCharsReceived s + 1) NUL) (\<lambda>buf'.
          Inr (None, s\<lparr>receivedStr := buf', numCharsReceived := numCharsReceived s + 1\<rparr>))))"

text \<open>
  The \<open>while\<close> loop over the bytes that are available, in order; the result lists the
  completed lines. The first error ends the run.
\<close>

fun loop :: "(string \<Rightarrow> real) \<Rightarrow> char list \<Rightarrow> sketch \<Rightarrow> error + (string list \<times> sketch)" where
  "loop parse [] s = Inr ([], s)"
| "loop parse (c # cs) s =
     and_then (loop_step parse c s) (\<lambda>(out, s').
     and_then (loop parse cs s') (\<lambda>(ls, s'').
       Inr ((case out of None \<Rightarrow> [] | Some l \<Rightarrow> [l]) @ ls, s'')))"

subsection \<open>\<open>atof\<close>\<close>

text \<open>
  Modelled from the spec: \<open>atof\<close> is the C library's and not part of the sketch. The spec
  (4.2): best-effort numeric parsing of the line's text, a leading optional sign, digits,
  an optional decimal point and fractional digits; trailing non-numeric content is
  ignored; the result is 0.0 when no valid numeric prefix exists, and no error is
  signalled.
\<close>

definition is_digit :: "char \<Rightarrow> bool" where
  "is_digit c = (c \<in> set ''0123456789'')"

definition digit_val :: "char \<Rightarrow> nat" where
  "digit_val c = of_char c - 48"

definition digits_val :: "string \<Rightarrow> nat" where
  "digits_val ds = foldl (\<lambda>acc d. 10 * acc + digit_val d) 0 ds"

definition is_sign :: "char \<Rightarrow> bool" where
  "is_sign c = (c = CHR ''+'' \<or> c = CHR ''-'')"

text \<open>The fractional digits that follow the integer digits, with their decimal point.\<close>

definition fraction_part :: "string \<Rightarrow> string" where
  "fraction_part r =
     (case r of [] \<Rightarrow> []
      | d # t \<Rightarrow> if d = CHR ''.'' then d # takeWhile is_digit t else [])"

text \<open>
  The numeric prefix of a text: sign, digits, point and fractional digits; empty when
  no digit follows the optional sign.
\<close>

definition unsigned_prefix :: "string \<Rightarrow> string" where
  "unsigned_prefix s =
     (if takeWhile is_digit s = [] then []
      else takeWhile is_digit s @ fraction_part (dropWhile is_digit s))"

definition numeric_prefix :: "string \<Rightarrow> string" where
  "numeric_prefix s =
     (case s of [] \<Rightarrow> []
      | c # t \<Rightarrow>
          if is_sign c then (if unsigned_prefix t = [] then [] else c # unsigned_prefix t)
          else unsigned_prefix s)"

definition unsigned_val :: "string \<Rightarrow> real" where
  "unsigned_val s =
     (let ip = takeWhile is_digit s;
          fp = tl (fraction_part (dropWhile is_digit s))
      in if ip = [] then 0
         else real (digits_val ip) + real (digits_val fp) / 10 ^ length fp)"

definition atof :: "string \<Rightarrow> real" where
  "atof s =
     (case s of [] \<Rightarrow> 0
      | c # t \<Rightarrow>
          if c = CHR ''-'' then - unsigned_val t
          else if c = CHR ''+'' then unsigned_val t
          else unsigned_val s)"

subsection \<open>Observations and example states\<close>

text \<open>The completed lines of a run, without the final state.\<close>

definition emitted :: "error + (string list \<times> sketch) \<Rightarrow> error + string list" where
  "emitted r = map_sum id fst r"

text \<open>The text that a run leaves in the buffer.\<close>

definition buffered :: "error + (string list \<times> sketch) \<Rightarrow> error + string" where
  "buffered r = and_then r (\<lambda>(ls, s). c_string (receivedStr s))"

text \<open>
  A state between two lines: nothing counted, and the array holds the empty string. This
  is the state after \<open>setup\<close> and after every completed line.
\<close>

definition ready :: "sketch \<Rightarrow> bool" where
  "ready s \<longleftrightarrow>
     numCharsReceived s = 0 \<and> int (length (receivedStr s)) = maxChars \<and>
     receivedStr s ! 0 = NUL"

text \<open>The state after the five bytes \<open>5000\<close>, CR have arrived at a fresh sketch.\<close>

definition after_5000 :: sketch where
  "after_5000 = \<lparr>receivedStr = ''5000'' @ CR # replicate 37 NUL, numCharsReceived = 5,
                 lcd = [], pins = (\<lambda>p. LOW)\<rparr>"

text \<open>The state that the line-feed after them leaves.\<close>

definition done_5000 :: sketch where
  "done_5000 = \<lparr>receivedStr = NUL # ''000'' @ NUL # replicate 37 NUL, numCharsReceived = 0,
                lcd = displayString ''5000'' @ updateBar (atof ''5000''),
                pins = checkWeigh (atof ''5000'') (\<lambda>p. LOW)\<rparr>"

section \<open>Properties\<close>

subsection \<open>Check weighing\<close>

lemmas pin_defs = pinHiLed_def pinOkLed_def pinLoLed_def

lemmas shows_defs = shows_Low_def shows_Ok_def shows_High_def

text \<open>
  Claim C1. For every weight and every previous state of the outputs, \<open>checkWeigh\<close> shows
  Low exactly when the weight is below \<open>loLimit\<close>, High exactly when it is above
  \<open>hiLimit\<close>, and Ok exactly in between, both limits included: a weight of exactly 4990
  or exactly 5010 shows Ok, 4989.9 shows Low and 5010.1 shows High.
\<close>

theorem checkWeigh_classifies:
  "(shows_Low (checkWeigh w io) \<longleftrightarrow> w < loLimit) \<and>
   (shows_High (checkWeigh w io) \<longleftrightarrow> w > hiLimit) \<and>
   (shows_Ok (checkWeigh w io) \<longleftrightarrow> loLimit \<le> w \<and> w \<le> hiLimit) \<and>
   loLimit = 4990 \<and> hiLimit = 5010 \<and>
   shows_Ok (checkWeigh 4990 io) \<and> shows_Ok (checkWeigh 5010 io) \<and>
   shows_Low (checkWeigh (49899 / 10) io) \<and> shows_High (checkWeigh (50101 / 10) io)"
  by (simp add: checkWeigh_def digitalWrite_def shows_defs pin_defs loLimit_def hiLimit_def)

text \<open>
  Claim C6. Whatever the outputs were before, after \<open>checkWeigh\<close> exactly one of the three
  LED pins is HIGH and the other two are LOW; the three levels do not depend on the
  previous state (each pin is written on every call), and a second call with the same
  weight leaves the outputs as the first call set them.
\<close>

theorem checkWeigh_one_hot:
  "length (filter (\<lambda>p. checkWeigh w io p = HIGH) [pinHiLed, pinOkLed, pinLoLed]) = 1 \<and>
   length (filter (\<lambda>p. checkWeigh w io p = LOW) [pinHiLed, pinOkLed, pinLoLed]) = 2 \<and>
   map (checkWeigh w io) [pinHiLed, pinOkLed, pinLoLed] =
     map (checkWeigh w io') [pinHiLed, pinOkLed, pinLoLed] \<and>
   checkWeigh w (checkWeigh w io) = checkWeigh w io"
  by (auto simp add: checkWeigh_def digitalWrite_def pin_defs)

subsection \<open>Integer conversions\<close>

lemma int_of_long_small: "- 32768 \<le> n \<Longrightarrow> n < 32768 \<Longrightarrow> int_of_long n = n"
  unfolding int_of_long_def int16_def by simp

lemma int_of_size_t_small: "n < 32768 \<Longrightarrow> int_of_size_t n = int n"
  unfolding int_of_size_t_def int16_def by simp

subsection \<open>Writing a row of the display\<close>

lemma written_map_Write: "written (map Write cs) = cs"
  by (induction cs) simp_all

text \<open>The loop of both display functions: \<open>k\<close> cells of one kind, then the filler.\<close>

lemma row_cells:
  "map (\<lambda>i. if int i < k then Write (f i) else Write c) [0..<n] =
   map Write (map f [0..<min n (nat k)] @ replicate (n - nat k) c)"
proof (induction n)
  case 0
  then show ?case by simp
next
  case (Suc n)
  show ?case
  proof (cases "int n < k")
    case True
    then have "min (Suc n) (nat k) = Suc n" "min n (nat k) = n"
      and "Suc n - nat k = 0" "n - nat k = 0"
      by linarith+
    with Suc True show ?thesis by simp
  next
    case False
    then have "min (Suc n) (nat k) = nat k" "min n (nat k) = nat k"
      and "Suc n - nat k = Suc (n - nat k)"
      by linarith+
    with Suc False show ?thesis by (simp add: replicate_append_same)
  qed
qed

lemma displayString_cells:
  assumes "length str < 32768"
  shows "displayString str =
           SetCursor 0 0 #
           map Write (take 16 str @ replicate (16 - length str) (CHR '' ''))"
proof -
  have "map ((!) str) [0..<min 16 (length str)] = take 16 str"
    by (rule nth_equalityI) simp_all
  then have "map Write (map ((!) str) [0..<min 16 (length str)]) = map Write (take 16 str)"
    by simp
  then show ?thesis
    using assms by (simp add: displayString_def Let_def int_of_size_t_small row_cells)
qed

text \<open>
  Claim C7. For every text shorter than 32768 characters (its length read as a 16-bit
  \<open>int\<close>; the board has 8 KB of RAM and the sketch passes its 42-byte array),
  \<open>displayString\<close> sets the cursor to the start of row 0 and then writes exactly 16
  characters: the first \<open>min (length str) 16\<close> characters of the text, followed by
  spaces.
\<close>

theorem displayString_pads:
  assumes "length str < 32768"
  shows "displayString str = SetCursor 0 0 # map Write (written (displayString str)) \<and>
         written (displayString str) =
           take (min (length str) 16) str @
           replicate (16 - min (length str) 16) (CHR '' '') \<and>
         length (written (displayString str)) = 16"
proof -
  have cells: "displayString str =
      SetCursor 0 0 # map Write (take 16 str @ replicate (16 - length str) (CHR '' ''))"
    using assms by (rule displayString_cells)
  then have w: "written (displayString str) =
      take 16 str @ replicate (16 - length str) (CHR '' '')"
    by (simp only: written.simps written_map_Write)
  have "take (min (length str) 16) str = take 16 str"
    by (simp add: min_def)
  moreover have "16 - min (length str) 16 = 16 - length str"
    by linarith
  ultimately show ?thesis
    using cells w by simp
qed

theorem displayString_pads_witness:
  "length ''5000'' < 32768 \<and>
   written (displayString ''5000'') = ''5000'' @ replicate 12 (CHR '' '') \<and>
   length (written (displayString ''5000'')) = 16"
  using displayString_pads [of "''5000''"] by simp

subsection \<open>The capacity bar\<close>

lemma updateBar_cells:
  assumes "int_of_long (round_macro (w / real_of_int maxWeight * 16)) = k"
  shows "written (updateBar w) =
           replicate (min 16 (nat k)) (CHR ''='') @ replicate (16 - nat k) (CHR '' '')"
proof -
  have "updateBar w =
          SetCursor 0 1 #
          map Write (replicate (min 16 (nat k)) (CHR ''='') @ replicate (16 - nat k) (CHR '' ''))"
    unfolding updateBar_def Let_def assms row_cells by (simp add: map_replicate_const)
  then show ?thesis
    by (simp only: written.simps written_map_Write)
qed

text \<open>
  Whenever the rounded segment count fits the 16-bit \<open>num\<close>, the bar is the count
  clamped to 0..16: the loop's bound does the clamping.
\<close>

lemma updateBar_in_range:
  assumes "- 32768 \<le> round_macro (w / real_of_int maxWeight * 16)"
      and "round_macro (w / real_of_int maxWeight * 16) < 32768"
  shows "written (updateBar w) =
           replicate (nat (min 16 (max 0 (round_macro (w / real_of_int maxWeight * 16)))))
             (CHR ''='') @
           replicate (16 - nat (min 16 (max 0 (round_macro (w / real_of_int maxWeight * 16)))))
             (CHR '' '')"
proof -
  define k where "k = round_macro (w / real_of_int maxWeight * 16)"
  have "int_of_long (round_macro (w / real_of_int maxWeight * 16)) = k"
    using assms unfolding k_def by (rule int_of_long_small)
  then have "written (updateBar w) =
      replicate (min 16 (nat k)) (CHR ''='') @ replicate (16 - nat k) (CHR '' '')"
    by (rule updateBar_cells)
  moreover have "min 16 (nat k) = nat (min 16 (max 0 k))"
    and "16 - nat k = 16 - nat (min 16 (max 0 k))"
    by linarith+
  ultimately show ?thesis
    unfolding k_def by simp
qed

lemma updateBar_examples:
  "filled (updateBar 0) = 0" "filled (updateBar 6200) = 16" "filled (updateBar 9999) = 16"
  by code_simp+

text \<open>
  Claim C5, at the weight 12700000 (the line \<open>12700000\<close> on the serial port): the
  rounded segment count is 32774, which the 16-bit \<open>num\<close> holds as -32762, and the bar
  is written as 16 empty cells where the claim has 16 filled ones.
\<close>

theorem updateBar_overflow:
  "round_macro (12700000 / real_of_int maxWeight * 16) = 32774 \<and>
   int_of_long 32774 = - 32762 \<and>
   written (updateBar 12700000) = replicate 16 (CHR '' '') \<and>
   filled (updateBar 12700000) = 0"
  by code_simp

subsection \<open>The receive buffer\<close>

lemma c_string_empty: "0 < length buf \<Longrightarrow> c_string (buf[0 := NUL]) = Inr []"
  by (cases buf) (simp_all add: c_string_def)

lemma c_string_terminated:
  assumes "NUL \<notin> set str"
  shows "c_string (str @ NUL # rest) = Inr str"
  using assms by (auto simp add: c_string_def takeWhile_tail)

lemma buffer_split:
  assumes "n < length buf" and "buf ! n = NUL"
  shows "buf = take n buf @ NUL # drop (Suc n) buf"
  using assms id_take_nth_drop by fastforce

lemma ready_initial: "ready initial"
  by (simp add: ready_def initial_def maxChars_def)

lemma ready_c_string: "ready s \<Longrightarrow> c_string (receivedStr s) = Inr []"
  by (cases "receivedStr s") (auto simp add: ready_def c_string_def maxChars_def)

subsection \<open>A line-feed on an empty buffer\<close>

text \<open>
  Between two lines the text in the buffer is empty, \<open>strlen\<close> is 0, and the unsigned
  \<open>strlen(receivedStr) - 1\<close> is 65535: line 114 reads outside the array.
\<close>

lemma loop_step_LF_ready:
  assumes "ready s"
  shows "loop_step parse LF s = Inl (OutOfBoundsRead 65535)"
  using assms ready_c_string [OF assms]
  by (simp add: loop_step_def strlen_def and_then_def read_at_def size_t_minus_def ready_def
      maxChars_def)

text \<open>
  Claim C2, at a line-feed that arrives first (or right after a completed line): the
  check of line 114 is not guarded; it reads \<open>receivedStr[65535]\<close>, outside the 42-byte
  array, where the claim has no read outside the buffer, an empty line emitted and the
  weight 0.0.
\<close>

theorem empty_line_reads_out_of_bounds:
  "loop_step atof LF initial = Inl (OutOfBoundsRead 65535) \<and>
   emitted (loop atof [LF] initial) = Inl (OutOfBoundsRead 65535)"
proof -
  have "loop_step atof LF initial = Inl (OutOfBoundsRead 65535)"
    using ready_initial by (rule loop_step_LF_ready)
  then show ?thesis
    by (simp add: and_then_def emitted_def)
qed


subsection \<open>Appending bytes\<close>

text \<open>One pass for a byte that is not a line-feed, while at most 40 are held.\<close>

lemma loop_step_append:
  assumes "c \<noteq> LF" and "numCharsReceived s = int k" and "k < 41"
    and "int (length (receivedStr s)) = maxChars"
  shows "loop_step parse c s =
           Inr (None, s\<lparr>receivedStr := (receivedStr s)[k := c, Suc k := NUL],
                        numCharsReceived := int (Suc k)\<rparr>)"
proof -
  have "nat (int k + 1) = Suc k"
    by simp
  with assms show ?thesis
    by (simp add: loop_step_def and_then_def write_at_def maxChars_def)
qed

text \<open>
  Up to 41 bytes in all are appended inside the array: the bytes follow those already
  held, the terminator follows them, and no line is completed.
\<close>

lemma loop_bytes:
  assumes "LF \<notin> set bs" and "numCharsReceived s = int k" and "k + length bs \<le> 41"
    and "int (length (receivedStr s)) = maxChars" and "receivedStr s ! k = NUL"
  shows "\<exists>s'. loop parse bs s = Inr ([], s') \<and>
              numCharsReceived s' = int (k + length bs) \<and>
              int (length (receivedStr s')) = maxChars \<and>
              take (k + length bs) (receivedStr s') = take k (receivedStr s) @ bs \<and>
              receivedStr s' ! (k + length bs) = NUL \<and>
              lcd s' = lcd s \<and> pins s' = pins s"
  using assms
proof (induction bs arbitrary: s k)
  case Nil
  then show ?case by simp
next
  case (Cons c cs)
  let ?t = "s\<lparr>receivedStr := (receivedStr s)[k := c, Suc k := NUL],
               numCharsReceived := int (Suc k)\<rparr>"
  have len: "length (receivedStr s) = 42"
    using Cons.prems(4) by (simp add: maxChars_def)
  have step: "loop_step parse c s = Inr (None, ?t)"
    using Cons.prems by (intro loop_step_append) auto
  have "\<exists>s'. loop parse cs ?t = Inr ([], s') \<and>
              numCharsReceived s' = int (Suc k + length cs) \<and>
              int (length (receivedStr s')) = maxChars \<and>
              take (Suc k + length cs) (receivedStr s') = take (Suc k) (receivedStr ?t) @ cs \<and>
              receivedStr s' ! (Suc k + length cs) = NUL \<and>
              lcd s' = lcd ?t \<and> pins s' = pins ?t"
    using Cons.prems len by (intro Cons.IH) auto
  then obtain s' where s': "loop parse cs ?t = Inr ([], s')"
    "numCharsReceived s' = int (Suc k + length cs)"
    "int (length (receivedStr s')) = maxChars"
    "take (Suc k + length cs) (receivedStr s') = take (Suc k) (receivedStr ?t) @ cs"
    "receivedStr s' ! (Suc k + length cs) = NUL"
    "lcd s' = lcd ?t" "pins s' = pins ?t"
    by blast
  have "take (Suc k) (receivedStr ?t) = take k (receivedStr s) @ [c]"
    using Cons.prems(3) len by (simp add: take_Suc_conv_app_nth)
  with s' step show ?case
    by (simp add: and_then_def)
qed

lemma loop_append:
  "loop parse (xs @ ys) s =
     and_then (loop parse xs s) (\<lambda>(l1, s1).
     and_then (loop parse ys s1) (\<lambda>(l2, s2). Inr (l1 @ l2, s2)))"
proof (induction xs arbitrary: s)
  case Nil
  then show ?case
    by (simp add: and_then_def split: sum.splits)
next
  case (Cons x xs)
  then show ?case
    by (simp add: and_then_def split: sum.splits prod.splits)
qed

subsection \<open>The 42nd byte\<close>

text \<open>
  With 41 characters held, the next byte is still appended (the count is not yet
  \<open>maxChars\<close>): it goes to the last cell, and its terminator to \<open>receivedStr[42]\<close>.
\<close>

lemma loop_step_overrun:
  assumes "c \<noteq> LF" and "numCharsReceived s = 41"
    and "int (length (receivedStr s)) = maxChars"
  shows "loop_step parse c s = Inl (OutOfBoundsWrite 42)"
  using assms by (simp add: loop_step_def and_then_def write_at_def maxChars_def)

lemma loop_overrun:
  assumes "ready s" and "length bs = 42" and "LF \<notin> set bs"
  shows "loop parse bs s = Inl (OutOfBoundsWrite 42)"
proof -
  have "take (Suc 41) bs = take 41 bs @ [bs ! 41]"
    using assms(2) by (intro take_Suc_conv_app_nth) simp
  then have bs: "bs = take 41 bs @ [bs ! 41]"
    using assms(2) by simp
  have "bs ! 41 \<in> set bs"
    using assms(2) by (intro nth_mem) simp
  then have "LF \<notin> set (take 41 bs)" and last: "bs ! 41 \<noteq> LF"
    using assms(3) by (auto dest: in_set_takeD)
  then have "\<exists>s'. loop parse (take 41 bs) s = Inr ([], s') \<and>
              numCharsReceived s' = int (0 + length (take 41 bs)) \<and>
              int (length (receivedStr s')) = maxChars \<and>
              take (0 + length (take 41 bs)) (receivedStr s') =
                take 0 (receivedStr s) @ take 41 bs \<and>
              receivedStr s' ! (0 + length (take 41 bs)) = NUL \<and>
              lcd s' = lcd s \<and> pins s' = pins s"
    using assms by (intro loop_bytes) (auto simp add: ready_def)
  then obtain s' where s': "loop parse (take 41 bs) s = Inr ([], s')"
    "numCharsReceived s' = 41" "int (length (receivedStr s')) = maxChars"
    using assms(2) by auto
  have "loop_step parse (bs ! 41) s' = Inl (OutOfBoundsWrite 42)"
    using last s'(2,3) by (rule loop_step_overrun)
  with s'(1) have "loop parse (take 41 bs @ [bs ! 41]) s = Inl (OutOfBoundsWrite 42)"
    by (simp add: loop_append and_then_def)
  with bs show ?thesis by simp
qed

text \<open>
  Claim C3, at 42 bytes \<open>a\<close> sent to a fresh sketch: the 42nd append writes the
  terminator at index 42 of the 42-byte array, where the claim has every append inside
  the buffer and at most 41 characters held (the comment on \<open>maxChars\<close> says 41 plus the
  terminator). The test on line 113 compares the count with \<open>maxChars\<close>, one byte late.
\<close>

theorem overlong_line_writes_out_of_bounds:
  "emitted (loop atof (replicate 42 (CHR ''a'')) initial) = Inl (OutOfBoundsWrite 42)"
proof -
  have "LF \<notin> set (replicate 42 (CHR ''a''))"
    by (simp add: LF_def)
  with ready_initial have "loop atof (replicate 42 (CHR ''a'')) initial = Inl (OutOfBoundsWrite 42)"
    by (intro loop_overrun) simp_all
  then show ?thesis
    by (simp add: emitted_def)
qed

subsection \<open>Completing a line\<close>

text \<open>
  Claim C9. Whenever a pass of the loop completes a line, the state it leaves (the one
  the next byte meets, the display, the bar and the LEDs being done) has the empty string
  in the buffer and a character count of zero.
\<close>

theorem loop_step_resets:
  assumes "loop_step parse c s = Inr (Some line, s')"
  shows "c_string (receivedStr s') = Inr [] \<and> numCharsReceived s' = 0"
  using assms
  by (auto simp add: loop_step_def and_then_def write_at_def c_string_empty Let_def
      split: if_splits sum.splits)

theorem loop_step_resets_witness:
  "loop_step atof LF after_5000 = Inr (Some ''5000'', done_5000) \<and>
   c_string (receivedStr done_5000) = Inr [] \<and> numCharsReceived done_5000 = 0"
  using loop_step_resets [of atof LF after_5000 "''5000''" done_5000]
  by (simp add: loop_step_def after_5000_def done_5000_def strlen_def c_string_def and_then_def
      read_at_def write_at_def size_t_minus_def NUL_def CR_def LF_def Let_def)

subsection \<open>Truncation at the maximum length\<close>

text \<open>
  Every pass that succeeds leaves the count below \<open>maxChars\<close>: finalisation sets it to 0,
  and an append succeeds only if its terminator fits, that is with a new count of at most
  41.
\<close>

lemma loop_step_count:
  assumes "loop_step parse c s = Inr (out, s')"
    and "int (length (receivedStr s)) = maxChars"
  shows "int (length (receivedStr s')) = maxChars \<and> numCharsReceived s' < maxChars"
  using assms
  by (auto simp add: loop_step_def and_then_def write_at_def Let_def maxChars_def
      split: if_splits sum.splits)

text \<open>So no run of the sketch ends with the count at \<open>maxChars\<close>.\<close>

lemma loop_count:
  assumes "loop parse bs s = Inr (ls, s')"
    and "int (length (receivedStr s)) = maxChars" and "numCharsReceived s < maxChars"
  shows "int (length (receivedStr s')) = maxChars \<and> numCharsReceived s' < maxChars"
  using assms
proof (induction bs arbitrary: s ls)
  case Nil
  then show ?case by simp
next
  case (Cons c cs)
  from Cons.prems(1) obtain out s1 ls1 where step: "loop_step parse c s = Inr (out, s1)"
    and rest: "loop parse cs s1 = Inr (ls1, s')"
    by (auto simp add: and_then_def split: sum.splits prod.splits)
  from step Cons.prems(2)
  have "int (length (receivedStr s1)) = maxChars \<and> numCharsReceived s1 < maxChars"
    by (rule loop_step_count)
  with rest show ?case
    by (intro Cons.IH) auto
qed

lemma loop_count_initial:
  assumes "loop parse bs initial = Inr (ls, s')"
  shows "numCharsReceived s' \<noteq> maxChars"
proof -
  have "int (length (receivedStr s')) = maxChars \<and> numCharsReceived s' < maxChars"
    using assms by (rule loop_count) (simp_all add: initial_def maxChars_def)
  then show ?thesis by simp
qed

text \<open>Below \<open>maxChars\<close>, only a line-feed completes a line.\<close>

lemma line_only_on_LF:
  assumes "loop_step parse c s = Inr (Some line, s')" and "numCharsReceived s < maxChars"
  shows "c = LF"
  using assms
  by (auto simp add: loop_step_def and_then_def split: if_splits sum.splits)


subsection \<open>Stripping the carriage-return\<close>

text \<open>
  A line-feed when the buffer holds a non-empty text: the last character is read inside
  the array, a carriage-return there is overwritten, and the sketch is ready again.
\<close>

lemma loop_step_LF:
  assumes "receivedStr s = str @ NUL # rest" and "NUL \<notin> set str" and "str \<noteq> []"
    and "length str \<le> 41"
  shows "\<exists>s'. loop_step parse LF s =
                Inr (Some (if last str = CR then butlast str else str), s') \<and>
              numCharsReceived s' = 0 \<and>
              length (receivedStr s') = length (receivedStr s) \<and>
              receivedStr s' ! 0 = NUL"
proof -
  let ?n = "length str"
  have cs: "c_string (receivedStr s) = Inr str"
    using assms(1,2) by (simp add: c_string_terminated)
  have idx: "size_t_minus ?n 1 = int ?n - 1"
    using assms(3,4) by (simp add: size_t_minus_def Suc_leI of_nat_diff)
  have rd: "read_at (receivedStr s) (int ?n - 1) = Inr (last str)"
    using assms(1,3) by (simp add: read_at_def nth_append last_conv_nth nat_diff_distrib')
  show ?thesis
  proof (cases "last str = CR")
    case True
    have "(str @ NUL # rest)[nat (int ?n - 1) := NUL] = butlast str @ NUL # NUL # rest"
      using assms(3) by (cases str rule: rev_cases) (simp_all add: nat_diff_distrib')
    moreover have "NUL \<notin> set (butlast str)"
      using assms(2) by (meson in_set_butlastD)
    ultimately have "c_string ((receivedStr s)[nat (int ?n - 1) := NUL]) = Inr (butlast str)"
      using assms(1) by (simp add: c_string_terminated)
    with True cs idx rd assms(1,3) show ?thesis
      by (simp add: loop_step_def strlen_def and_then_def write_at_def Let_def)
  next
    case False
    with cs idx rd assms(1) show ?thesis
      by (simp add: loop_step_def strlen_def and_then_def write_at_def Let_def)
  qed
qed

text \<open>A whole line, from a ready sketch to a ready sketch.\<close>

lemma loop_line:
  assumes "ready s" and "bs \<noteq> []" and "length bs \<le> 41" and "NUL \<notin> set bs"
    and "LF \<notin> set bs"
  shows "\<exists>s'. loop parse (bs @ [LF]) s =
                Inr ([if last bs = CR then butlast bs else bs], s') \<and> ready s'"
proof -
  have "\<exists>s'. loop parse bs s = Inr ([], s') \<and>
              numCharsReceived s' = int (0 + length bs) \<and>
              int (length (receivedStr s')) = maxChars \<and>
              take (0 + length bs) (receivedStr s') = take 0 (receivedStr s) @ bs \<and>
              receivedStr s' ! (0 + length bs) = NUL \<and>
              lcd s' = lcd s \<and> pins s' = pins s"
    using assms by (intro loop_bytes) (auto simp add: ready_def)
  then obtain s1 where s1: "loop parse bs s = Inr ([], s1)"
    "int (length (receivedStr s1)) = maxChars"
    "take (length bs) (receivedStr s1) = bs" "receivedStr s1 ! length bs = NUL"
    by auto
  have "receivedStr s1 = bs @ NUL # drop (Suc (length bs)) (receivedStr s1)"
    using buffer_split [of "length bs" "receivedStr s1"] s1 assms(3)
    by (simp add: maxChars_def)
  then have "\<exists>s'. loop_step parse LF s1 =
                Inr (Some (if last bs = CR then butlast bs else bs), s') \<and>
              numCharsReceived s' = 0 \<and>
              length (receivedStr s') = length (receivedStr s1) \<and>
              receivedStr s' ! 0 = NUL"
    using assms by (intro loop_step_LF) auto
  then obtain s2 where s2: "loop_step parse LF s1 =
      Inr (Some (if last bs = CR then butlast bs else bs), s2)" "ready s2"
    using s1(2) by (auto simp add: ready_def)
  with s1(1) have "loop parse (bs @ [LF]) s =
      Inr ([if last bs = CR then butlast bs else bs], s2)"
    by (simp add: loop_append and_then_def)
  with s2(2) show ?thesis
    by blast
qed

text \<open>
  Claim C4, as amended. For every line of 1 to 41 bytes, none of them NUL, that a ready
  sketch receives, followed by a line-feed: exactly one line is completed; it is the
  received text without its last character when that character is a carriage-return,
  and the received text unchanged otherwise.
\<close>

theorem loop_emits_line:
  assumes "ready s" and "bs \<noteq> []" and "length bs \<le> 41" and "NUL \<notin> set bs"
    and "LF \<notin> set bs"
  shows "emitted (loop parse (bs @ [LF]) s) = Inr [if last bs = CR then butlast bs else bs]"
proof -
  obtain s' where "loop parse (bs @ [LF]) s =
      Inr ([if last bs = CR then butlast bs else bs], s')"
    using loop_line [OF assms] by blast
  then show ?thesis
    by (simp add: emitted_def)
qed

theorem loop_emits_line_witness:
  "ready initial \<and>
   emitted (loop atof (''5000'' @ [CR] @ [LF]) initial) = Inr [''5000''] \<and>
   emitted (loop atof (''5000'' @ [LF]) initial) = Inr [''5000'']"
proof -
  have "emitted (loop atof ((''5000'' @ [CR]) @ [LF]) initial) =
      Inr [if last (''5000'' @ [CR]) = CR then butlast (''5000'' @ [CR]) else ''5000'' @ [CR]]"
    using ready_initial by (rule loop_emits_line) (simp_all add: NUL_def LF_def CR_def)
  moreover have "emitted (loop atof (''5000'' @ [LF]) initial) =
      Inr [if last ''5000'' = CR then butlast ''5000'' else ''5000'']"
    using ready_initial by (rule loop_emits_line) (simp_all add: NUL_def LF_def CR_def)
  ultimately show ?thesis
    using ready_initial by (simp add: CR_def)
qed

lemma initial_cells:
  "initial = \<lparr>receivedStr = NUL # NUL # NUL # replicate 39 NUL, numCharsReceived = 0,
              lcd = [], pins = (\<lambda>p. LOW)\<rparr>"
proof -
  have "replicate 42 NUL = replicate 3 NUL @ replicate 39 NUL"
    by (simp flip: replicate_add)
  then show ?thesis
    by (simp add: initial_def numeral_3_eq_3)
qed

text \<open>
  The claim as stated fails at the bytes CR, NUL, LF sent to a fresh sketch: the byte
  before the line-feed is not a carriage-return, yet the text held, a single
  carriage-return, is stripped and the completed line is empty. A NUL byte ends the
  text it is appended to.
\<close>

theorem strip_without_carriage_return:
  "last [CR, NUL] \<noteq> CR \<and>
   buffered (loop atof [CR, NUL] initial) = Inr [CR] \<and>
   emitted (loop atof [CR, NUL, LF] initial) = Inr [[]]"
  unfolding initial_cells
  by (simp add: loop_step_def and_then_def strlen_def c_string_def
      read_at_def write_at_def size_t_minus_def maxChars_def emitted_def buffered_def
      NUL_def CR_def LF_def Let_def numeral_2_eq_2)

subsection \<open>The weight parser\<close>

lemma fraction_part_not_digit: "takeWhile is_digit (fraction_part r) = []"
  by (cases r) (simp_all add: fraction_part_def is_digit_def)

lemma fraction_part_idem: "fraction_part (fraction_part r) = fraction_part r"
  by (cases r) (simp_all add: fraction_part_def)

lemma fraction_part_dropWhile: "dropWhile is_digit (fraction_part r) = fraction_part r"
  by (cases r) (simp_all add: fraction_part_def is_digit_def)

lemma takeWhile_digits: "x \<in> set (takeWhile is_digit s) \<Longrightarrow> is_digit x"
  by (drule set_takeWhileD) (erule conjunct2)

lemma digits_then_fraction:
  "takeWhile is_digit (takeWhile is_digit s @ fraction_part r) = takeWhile is_digit s"
  "dropWhile is_digit (takeWhile is_digit s @ fraction_part r) = fraction_part r"
proof -
  have "takeWhile is_digit (takeWhile is_digit s @ fraction_part r) =
      takeWhile is_digit s @ takeWhile is_digit (fraction_part r)"
    by (rule takeWhile_append2) (rule takeWhile_digits)
  then show "takeWhile is_digit (takeWhile is_digit s @ fraction_part r) = takeWhile is_digit s"
    by (simp only: fraction_part_not_digit append_Nil2)
  have "dropWhile is_digit (takeWhile is_digit s @ fraction_part r) =
      dropWhile is_digit (fraction_part r)"
    by (rule dropWhile_append2) (rule takeWhile_digits)
  then show "dropWhile is_digit (takeWhile is_digit s @ fraction_part r) = fraction_part r"
    by (simp only: fraction_part_dropWhile)
qed

lemma unsigned_val_prefix: "unsigned_val (unsigned_prefix s) = unsigned_val s"
  by (simp add: unsigned_val_def unsigned_prefix_def digits_then_fraction fraction_part_idem)

lemma unsigned_val_no_prefix: "unsigned_prefix s = [] \<Longrightarrow> unsigned_val s = 0"
  by (simp add: unsigned_val_def unsigned_prefix_def split: if_splits)

lemma unsigned_prefix_hd:
  assumes "unsigned_prefix s \<noteq> []"
  shows "\<exists>t. unsigned_prefix s = hd s # t \<and> is_digit (hd s)"
proof (cases s)
  case Nil
  with assms show ?thesis by (simp add: unsigned_prefix_def)
next
  case (Cons c t)
  with assms show ?thesis
    by (cases "is_digit c") (simp_all add: unsigned_prefix_def)
qed

lemma digit_not_sign: "is_digit c \<Longrightarrow> c \<noteq> CHR ''-'' \<and> c \<noteq> CHR ''+''"
  by (auto simp add: is_digit_def)

lemma fraction_part_is_prefix: "\<exists>rest. r = fraction_part r @ rest"
proof (cases r)
  case Nil
  then show ?thesis by (simp add: fraction_part_def)
next
  case (Cons d t)
  show ?thesis
  proof (cases "d = CHR ''.''")
    case True
    have "d # t = (d # takeWhile is_digit t) @ dropWhile is_digit t"
      by simp
    with True Cons show ?thesis
      unfolding fraction_part_def by (simp del: takeWhile_dropWhile_id) blast
  next
    case False
    with Cons show ?thesis by (simp add: fraction_part_def)
  qed
qed

lemma unsigned_prefix_is_prefix: "\<exists>rest. s = unsigned_prefix s @ rest"
proof (cases "takeWhile is_digit s = []")
  case True
  then show ?thesis by (simp add: unsigned_prefix_def)
next
  case False
  obtain rest where "dropWhile is_digit s = fraction_part (dropWhile is_digit s) @ rest"
    using fraction_part_is_prefix by blast
  then have "takeWhile is_digit s @ dropWhile is_digit s =
      (takeWhile is_digit s @ fraction_part (dropWhile is_digit s)) @ rest"
    by simp
  then have "s = unsigned_prefix s @ rest"
    using False by (simp add: unsigned_prefix_def)
  then show ?thesis ..
qed

text \<open>
  Claim C8. For every text, \<open>atof\<close> returns a number and nothing else (it has no error
  result): 0 when the text has no numeric prefix, and otherwise the value of the numeric
  prefix alone, whatever follows it in the text.
\<close>

theorem atof_numeric_prefix:
  "(numeric_prefix s = [] \<longrightarrow> atof s = 0) \<and>
   atof (numeric_prefix s) = atof s \<and>
   (\<exists>rest. s = numeric_prefix s @ rest)"
proof (cases s)
  case Nil
  then show ?thesis by (simp add: numeric_prefix_def atof_def)
next
  case (Cons c t)
  show ?thesis
  proof (cases "is_sign c")
    case True
    obtain rest where "t = unsigned_prefix t @ rest"
      using unsigned_prefix_is_prefix by blast
    then have "c # t = (c # unsigned_prefix t) @ rest"
      by simp
    with True Cons show ?thesis
      by (auto simp add: numeric_prefix_def atof_def is_sign_def unsigned_val_prefix
          unsigned_val_no_prefix)
  next
    case False
    then have plain: "atof s = unsigned_val s" "numeric_prefix s = unsigned_prefix s"
      using Cons by (simp_all add: atof_def numeric_prefix_def is_sign_def)
    have "atof (unsigned_prefix s) = unsigned_val s"
    proof (cases "unsigned_prefix s = []")
      case True
      then show ?thesis by (simp add: atof_def unsigned_val_no_prefix)
    next
      case False
      then obtain u where u: "unsigned_prefix s = hd s # u" "is_digit (hd s)"
        using unsigned_prefix_hd by blast
      then have "atof (unsigned_prefix s) = unsigned_val (unsigned_prefix s)"
        using digit_not_sign [of "hd s"] by (simp add: atof_def)
      then show ?thesis by (simp add: unsigned_val_prefix)
    qed
    with plain unsigned_prefix_is_prefix [of s] show ?thesis
      by (auto simp add: unsigned_val_no_prefix)
  qed
qed

theorem atof_numeric_prefix_witness:
  "numeric_prefix ''abc'' = [] \<and> atof ''abc'' = 0 \<and>
   numeric_prefix ''-12.5 g'' = ''-12.5'' \<and> atof ''-12.5 g'' = atof ''-12.5'' \<and>
   atof ''-12.5'' = - 25 / 2"
proof -
  have a: "numeric_prefix ''abc'' = []"
    by (simp add: numeric_prefix_def unsigned_prefix_def is_sign_def is_digit_def)
  have b: "numeric_prefix ''-12.5 g'' = ''-12.5''"
    by (simp add: numeric_prefix_def unsigned_prefix_def fraction_part_def is_sign_def
        is_digit_def)
  have c: "atof ''-12.5'' = - 25 / 2"
    by (simp add: atof_def unsigned_val_def fraction_part_def is_digit_def digits_val_def
        digit_val_def)
  from atof_numeric_prefix [of "''abc''"] atof_numeric_prefix [of "''-12.5 g''"] a b c
  show ?thesis by simp
qed

end
